theory Spec2Isabelle
  imports Complex_Main
begin

section \<open>Python values used by the program\<close>

text \<open>
  Exceptions that escape a function of \<^verbatim>\<open>youtube_playlist_to_text.py\<close>.
  \<open>SystemExit\<close> is what \<^verbatim>\<open>sys.exit(1)\<close> raises.
\<close>

datatype py_exception =
    TypeError
  | KeyError
  | AttributeError
  | ValueError
  | OverflowError
  | JSONDecodeError
  | SystemExit int

text \<open>
  Strings are ASCII texts. \<open>lower\<close> is \<^verbatim>\<open>str.lower()\<close> on them and
  \<open>contains needle hay\<close> is \<^verbatim>\<open>needle in hay\<close>.
\<close>

definition lower_char :: "char \<Rightarrow> char" where
  "lower_char c =
     (let n = (of_char c :: nat)
      in if 65 \<le> n \<and> n \<le> 90 then char_of (n + 32) else c)"

definition lower :: "string \<Rightarrow> string" where
  "lower s = map lower_char s"

fun starts_with :: "string \<Rightarrow> string \<Rightarrow> bool" where
  "starts_with [] hay = True"
| "starts_with (c # cs) [] = False"
| "starts_with (c # cs) (h # hs) = (c = h \<and> starts_with cs hs)"

fun contains :: "string \<Rightarrow> string \<Rightarrow> bool" where
  "contains needle [] = (needle = [])"
| "contains needle (h # hs) = (starts_with needle (h # hs) \<or> contains needle hs)"

section \<open>The trace of a run\<close>

text \<open>
  What a run does to the outside world, in order: each pass through the \<^verbatim>\<open>try\<close>
  block of \<open>transcribe_audio\<close> (\<open>Attempt\<close>), each \<^verbatim>\<open>time.sleep\<close> with the
  place that calls it and its argument, each transcript written, and the two messages of
  the coordinator's loop that tell a skip from a failed transcription.
\<close>

datatype event =
    Attempt string
  | RateLimitSleep int
  | RetrySleep int
  | QuotaMessage
  | AlreadyExists string
  | Saved string string
  | PacingSleep int
  | SkippedTranscription string

section \<open>Transcriber: \<open>transcribe_audio\<close>\<close>

text \<open>
  The outcome of one pass through the \<^verbatim>\<open>try\<close> block (open the file, call
  \<^verbatim>\<open>client.audio.transcriptions.create\<close>): the text of the transcript, a
  \<^verbatim>\<open>RateLimitError\<close> with its \<^verbatim>\<open>str(e)\<close>, or any other
  \<^verbatim>\<open>Exception\<close> with its \<^verbatim>\<open>str(e)\<close>.

  The collaborator is a function of the number of passes made before (in the whole run)
  and of the file, so that it may answer every call differently.
\<close>

datatype api_result =
    Transcript string
  | RateLimitError string
  | OtherError string

type_synonym client = "nat \<Rightarrow> string \<Rightarrow> api_result"

record world =
  attempts :: nat
  trace :: "event list"

definition emit :: "event \<Rightarrow> 'a world_scheme \<Rightarrow> 'a world_scheme" where
  "emit e w = w\<lparr>trace := trace w @ [e]\<rparr>"

definition call_api :: "string \<Rightarrow> 'a world_scheme \<Rightarrow> 'a world_scheme" where
  "call_api file_path w = emit (Attempt file_path) (w\<lparr>attempts := attempts w + 1\<rparr>)"

definition insufficient_quota :: "string \<Rightarrow> bool" where
  "insufficient_quota msg = contains ''insufficient_quota'' (lower msg)"

text \<open>
  The \<^verbatim>\<open>for attempt in range(max_retries)\<close> loop, from \<open>attempt\<close> on. The result is
  the returned value (\<open>None\<close> for Python's \<^verbatim>\<open>None\<close>) and the world after.
\<close>

function transcribe_loop ::
  "client \<Rightarrow> string \<Rightarrow> int \<Rightarrow> int \<Rightarrow> 'a world_scheme \<Rightarrow> string option \<times> 'a world_scheme" where
  "transcribe_loop cl file_path max_retries attempt w =
     (if attempt < max_retries then
        (let w1 = call_api file_path w in
         case cl (attempts w) file_path of
           Transcript text \<Rightarrow> (Some text, w1)
         | RateLimitError msg \<Rightarrow>
             if insufficient_quota msg then (None, emit QuotaMessage w1)
             else
               (let wait_time = (attempt + 1) * 60 in
                if attempt < max_retries - 1
                then transcribe_loop cl file_path max_retries (attempt + 1)
                       (emit (RateLimitSleep wait_time) w1)
                else (None, w1))
         | OtherError msg \<Rightarrow>
             if attempt < max_retries - 1
             then transcribe_loop cl file_path max_retries (attempt + 1)
                    (emit (RetrySleep 5) w1)
             else (None, w1))
      else (None, w))"
  by pat_completeness auto
termination
  by (relation "measure (\<lambda>(cl, file_path, max_retries, attempt, w). nat (max_retries - attempt))")
     auto

definition transcribe_audio ::
  "string \<Rightarrow> client \<Rightarrow> int \<Rightarrow> 'a world_scheme \<Rightarrow> string option \<times> 'a world_scheme" where
  "transcribe_audio file_path cl max_retries w = transcribe_loop cl file_path max_retries 0 w"

text \<open>The default \<^verbatim>\<open>max_retries=3\<close>, as \<open>main\<close> calls it.\<close>

definition transcribe_audio_default ::
  "string \<Rightarrow> client \<Rightarrow> 'a world_scheme \<Rightarrow> string option \<times> 'a world_scheme" where
  "transcribe_audio_default file_path cl w = transcribe_audio file_path cl 3 w"

section \<open>RunCoordinator: the transcription phase of \<open>main\<close>\<close>

text \<open>
  \<^verbatim>\<open>Path.stem\<close>: the file name without its last suffix. \<open>rfind\<close> is
  \<^verbatim>\<open>str.rfind\<close> for one character (\<open>-1\<close> when it does not occur).
\<close>

fun rfind :: "char \<Rightarrow> string \<Rightarrow> int" where
  "rfind c [] = - 1"
| "rfind c (x # xs) =
     (let r = rfind c xs in if r \<noteq> - 1 then r + 1 else if x = c then 0 else - 1)"

definition stem :: "string \<Rightarrow> string" where
  "stem name =
     (let i = rfind (CHR ''.'') name
      in if 0 < i \<and> i < int (length name) - 1 then take (nat i) name else name)"

text \<open>
  \<^verbatim>\<open>transcripts_path / f"{mp3_file.stem}.txt"\<close>: the transcript's file name inside the
  output directory. The output directory is a map from file name to content.
\<close>

definition transcript_file_of :: "string \<Rightarrow> string" where
  "transcript_file_of mp3_file = stem mp3_file @ ''.txt''"

record run_state = world +
  transcripts :: "string \<rightharpoonup> string"
  transcribed_count :: int
  skipped_count :: int

text \<open>
  \<^verbatim>\<open>time.sleep(secs)\<close> on an integer: the seconds are first converted to a signed 64-bit
  count of nanoseconds, which raises \<open>OverflowError\<close> when they do not fit (from
  9223372037 seconds on, and below -9223372036), and a negative count then raises
  \<open>ValueError\<close>.
\<close>

definition sleep_raises :: "int \<Rightarrow> py_exception option" where
  "sleep_raises secs =
     (if secs * 1000000000 > 9223372036854775807 \<or> secs * 1000000000 < - 9223372036854775808
      then Some OverflowError
      else if secs < 0 then Some ValueError
      else None)"

text \<open>\<^verbatim>\<open>if text:\<close> on the value \<open>transcribe_audio\<close> returned: \<^verbatim>\<open>None\<close> and the empty
  string are false.\<close>

fun truthy_text :: "string option \<Rightarrow> bool" where
  "truthy_text None = False"
| "truthy_text (Some t) = (t \<noteq> [])"

text \<open>
  One iteration of \<^verbatim>\<open>for i, mp3_file in enumerate(all_mp3_files, 1)\<close>, where \<open>n\<close> is
  \<^verbatim>\<open>len(all_mp3_files)\<close>. The first component of the result is the exception that
  ends the run there, if any. \<open>save_transcript\<close> is the branch of \<^verbatim>\<open>if text:\<close>
  (there \<open>text\<close> is not \<^verbatim>\<open>None\<close>) and \<open>skip_transcription\<close> its \<^verbatim>\<open>else\<close>.
\<close>

definition save_transcript :: "int \<Rightarrow> int \<Rightarrow> int \<Rightarrow> string \<Rightarrow> string \<Rightarrow> run_state \<Rightarrow> py_exception option \<times> run_state" where
  "save_transcript delay n i transcript_file text st1 =
     (let st2 = emit (Saved transcript_file text)
                  (st1\<lparr>transcripts := (transcripts st1)(transcript_file \<mapsto> text)\<rparr>);
          st3 = st2\<lparr>transcribed_count := transcribed_count st2 + 1\<rparr>
      in if i < n then
           (case sleep_raises delay of
              Some e \<Rightarrow> (Some e, st3)
            | None \<Rightarrow> (None, emit (PacingSleep delay) st3))
         else (None, st3))"

definition skip_transcription :: "string \<Rightarrow> run_state \<Rightarrow> py_exception option \<times> run_state" where
  "skip_transcription mp3_file st1 =
     (None, emit (SkippedTranscription mp3_file) (st1\<lparr>skipped_count := skipped_count st1 + 1\<rparr>))"

definition process_file ::
  "client \<Rightarrow> int \<Rightarrow> int \<Rightarrow> int \<Rightarrow> string \<Rightarrow> run_state \<Rightarrow> py_exception option \<times> run_state" where
  "process_file cl delay n i mp3_file st =
     (let transcript_file = transcript_file_of mp3_file in
      if transcripts st transcript_file \<noteq> None
      then (None, emit (AlreadyExists transcript_file)
                    (st\<lparr>skipped_count := skipped_count st + 1\<rparr>))
      else
        (case transcribe_audio_default mp3_file cl st of
           (text, st1) \<Rightarrow>
             if truthy_text text
             then save_transcript delay n i transcript_file (the text) st1
             else skip_transcription mp3_file st1))"

fun transcription_loop ::
  "client \<Rightarrow> int \<Rightarrow> int \<Rightarrow> int \<Rightarrow> string list \<Rightarrow> run_state \<Rightarrow> py_exception option \<times> run_state" where
  "transcription_loop cl delay n i [] st = (None, st)"
| "transcription_loop cl delay n i (mp3_file # rest) st =
     (case process_file cl delay n i mp3_file st of
        (Some e, st') \<Rightarrow> (Some e, st')
      | (None, st') \<Rightarrow> transcription_loop cl delay n (i + 1) rest st')"

text \<open>
  The state at \<^verbatim>\<open>transcribed_count = 0; skipped_count = 0\<close>, with the transcripts found
  in the output directory.
\<close>

definition initial_state :: "(string \<rightharpoonup> string) \<Rightarrow> run_state" where
  "initial_state ts =
     \<lparr>attempts = 0, trace = [], transcripts = ts, transcribed_count = 0, skipped_count = 0\<rparr>"

definition transcription_phase ::
  "client \<Rightarrow> int \<Rightarrow> string list \<Rightarrow> (string \<rightharpoonup> string) \<Rightarrow> py_exception option \<times> run_state" where
  "transcription_phase cl delay all_mp3_files ts =
     transcription_loop cl delay (int (length all_mp3_files)) 1 all_mp3_files (initial_state ts)"

text \<open>The four numbers of the completion summary, as \<open>main\<close> prints them.\<close>

record summary =
  total_audio_files :: int
  successfully_transcribed :: int
  skipped_already_existed :: int
  failed :: int

definition completion_summary :: "string list \<Rightarrow> run_state \<Rightarrow> summary" where
  "completion_summary all_mp3_files st =
     \<lparr>total_audio_files = int (length all_mp3_files),
      successfully_transcribed = transcribed_count st,
      skipped_already_existed = skipped_count st,
      failed = int (length all_mp3_files) - transcribed_count st - skipped_count st\<rparr>"

text \<open>
  The transcription phase followed by the summary; \<open>Inl\<close> when an exception ended the
  run before the summary was printed.
\<close>

definition run_transcription ::
  "client \<Rightarrow> int \<Rightarrow> string list \<Rightarrow> (string \<rightharpoonup> string) \<Rightarrow> py_exception + summary" where
  "run_transcription cl delay all_mp3_files ts =
     (case transcription_phase cl delay all_mp3_files ts of
        (Some e, st) \<Rightarrow> Inl e
      | (None, st) \<Rightarrow> Inr (completion_summary all_mp3_files st))"

section \<open>AudioFetcher: \<open>check_file_size\<close> and \<open>download_audio_if_needed\<close>\<close>

text \<open>What the fetcher prints about one download.\<close>

datatype download_report =
    Downloaded string
  | FileTooLarge string
  | FileSizeOK
  | NoNewFile
  | DownloadFailed

text \<open>
  \<^verbatim>\<open>int.bit_length\<close>, and the integer a double holds when the integer \<open>n\<close> is rounded
  to it: \<open>n\<close> itself when it has at most 53 bits, and otherwise its leading 53 bits
  rounded to nearest, ties to even.
\<close>

fun bit_length :: "nat \<Rightarrow> nat" where
  "bit_length n = (if n = 0 then 0 else Suc (bit_length (n div 2)))"

definition nearest_double :: "nat \<Rightarrow> nat" where
  "nearest_double n =
     (if bit_length n \<le> 53 then n
      else
        (let e = bit_length n - 53;
             q = n div 2 ^ e;
             r = n mod 2 ^ e
         in (if 2 * r > 2 ^ e \<or> (2 * r = 2 ^ e \<and> odd q) then q + 1 else q) * 2 ^ e))"

text \<open>
  \<open>check_file_size\<close> on a file of \<open>st_size\<close> bytes, the size \<^verbatim>\<open>stat\<close> reports.
  \<^verbatim>\<open>size_mb\<close> is the float \<^verbatim>\<open>st_size / (1024 * 1024)\<close>: Python rounds the quotient of two
  integers correctly, and dividing by a power of two only changes the exponent, so the
  float is the double nearest to \<open>st_size\<close>, divided by \<open>2 ^ 20\<close> (a file size is below
  \<open>2 ^ 63\<close>, far inside the range of a float). The comparison of a float with the integer
  \<^verbatim>\<open>max_size_mb\<close> is exact.
\<close>

definition check_file_size :: "string \<Rightarrow> nat \<Rightarrow> int \<Rightarrow> bool \<times> download_report" where
  "check_file_size name st_size max_size_mb =
     (let size_mb = real (nearest_double st_size) / (1024 * 1024)
      in if size_mb > real_of_int max_size_mb
         then (False, FileTooLarge name)
         else (True, FileSizeOK))"

text \<open>The default \<^verbatim>\<open>max_size_mb=25\<close>, as \<open>download_audio_if_needed\<close> calls it.\<close>

definition check_file_size_default :: "string \<Rightarrow> nat \<Rightarrow> bool \<times> download_report" where
  "check_file_size_default name st_size = check_file_size name st_size 25"

text \<open>
  The result of \<^verbatim>\<open>output_path.glob("*.mp3")\<close>: the mp3 files of the download directory,
  each with its size. The downloader is a function from the URL and the files before to
  its exit status (\<open>False\<close> for \<^verbatim>\<open>CalledProcessError\<close>) and the files after.
  \<^verbatim>\<open>new_files.pop()\<close> takes an arbitrary element of a set: \<open>pop\<close> chooses its index.
\<close>

type_synonym mp3_files = "(string \<times> nat) list"

type_synonym downloader = "string \<Rightarrow> mp3_files \<Rightarrow> bool \<times> mp3_files"

definition new_files_of :: "mp3_files \<Rightarrow> mp3_files \<Rightarrow> mp3_files" where
  "new_files_of before_files after_files =
     filter (\<lambda>f. fst f \<notin> set (map fst before_files)) after_files"

definition download_audio_if_needed ::
  "(mp3_files \<Rightarrow> nat) \<Rightarrow> downloader \<Rightarrow> string \<Rightarrow> mp3_files
     \<Rightarrow> string option \<times> download_report list \<times> mp3_files" where
  "download_audio_if_needed pop dl url before_files =
     (case dl url before_files of
        (False, after_files) \<Rightarrow> (None, [DownloadFailed], after_files)
      | (True, after_files) \<Rightarrow>
          (let new_files = new_files_of before_files after_files in
           if new_files \<noteq> [] then
             (let new_file = new_files ! (pop new_files mod length new_files);
                  size_check = check_file_size_default (fst new_file) (snd new_file)
              in (Some (fst new_file), [Downloaded (fst new_file), snd size_check], after_files))
           else (None, [NoNewFile], after_files)))"

text \<open>
  The download phase of \<open>main\<close>: \<^verbatim>\<open>downloaded_files\<close>, what was printed and the
  directory, after each URL. A \<^verbatim>\<open>Path\<close> is always true, so \<^verbatim>\<open>if mp3_file:\<close> asks
  whether a file was returned.
\<close>

fun download_loop ::
  "(mp3_files \<Rightarrow> nat) \<Rightarrow> downloader \<Rightarrow> string list
     \<Rightarrow> string list \<times> download_report list \<times> mp3_files
     \<Rightarrow> string list \<times> download_report list \<times> mp3_files" where
  "download_loop pop dl [] acc = acc"
| "download_loop pop dl (url # urls) (downloaded_files, printed, dir) =
     (case download_audio_if_needed pop dl url dir of
        (Some mp3_file, reports, dir') \<Rightarrow>
          download_loop pop dl urls (downloaded_files @ [mp3_file], printed @ reports, dir')
      | (None, reports, dir') \<Rightarrow>
          download_loop pop dl urls (downloaded_files, printed @ reports, dir'))"

section \<open>VideoListResolver: \<open>get_video_list\<close>\<close>











section \<open>Vocabulary of the properties\<close>


text \<open>
  The events \<open>transcribe_audio\<close> produces for the file \<open>f\<close>, and the kinds of event the
  counters and the pacing are about.
\<close>

fun transcriber_event :: "string \<Rightarrow> event \<Rightarrow> bool" where
  "transcriber_event f (Attempt g) = (g = f)"
| "transcriber_event f (RateLimitSleep s) = True"
| "transcriber_event f (RetrySleep s) = True"
| "transcriber_event f QuotaMessage = True"
| "transcriber_event f e = False"

fun is_saved :: "event \<Rightarrow> bool" where
  "is_saved (Saved p t) = True"
| "is_saved e = False"

fun is_pacing :: "event \<Rightarrow> bool" where
  "is_pacing (PacingSleep s) = True"
| "is_pacing e = False"

fun is_skip :: "event \<Rightarrow> bool" where
  "is_skip (AlreadyExists p) = True"
| "is_skip (SkippedTranscription f) = True"
| "is_skip e = False"

text \<open>The first event of an iteration: the transcript is found, or the first attempt.\<close>

fun starts_item :: "event \<Rightarrow> bool" where
  "starts_item (AlreadyExists p) = True"
| "starts_item (Attempt f) = True"
| "starts_item e = False"

text \<open>
  What may follow what: a pacing sleep has the configured delay and comes right after a
  saved transcript, nothing else comes right after a saved transcript, and a pacing sleep
  is followed by the start of the next iteration.
\<close>

definition pacing_step :: "int \<Rightarrow> event \<Rightarrow> event \<Rightarrow> bool" where
  "pacing_step delay e e' =
     ((is_pacing e' \<longrightarrow> e' = PacingSleep delay \<and> is_saved e) \<and>
      (is_saved e \<longrightarrow> e' = PacingSleep delay) \<and>
      (is_pacing e \<longrightarrow> starts_item e'))"

text \<open>
  The claim that the pacing sleep lies between two consecutive successful transcriptions,
  on a trace. \<open>next_outcome_saved\<close> reads how the next iteration ends: with a transcript
  saved, or with a skip or a failed transcription. \<open>sleeps_between_successes\<close> asks of
  every pacing sleep that it comes right after a saved transcript and that the iteration
  after it saves one too.
\<close>

fun next_outcome_saved :: "event list \<Rightarrow> bool" where
  "next_outcome_saved [] = False"
| "next_outcome_saved (Saved p t # es) = True"
| "next_outcome_saved (AlreadyExists p # es) = False"
| "next_outcome_saved (SkippedTranscription f # es) = False"
| "next_outcome_saved (e # es) = next_outcome_saved es"

fun sleeps_between_successes :: "event list \<Rightarrow> bool" where
  "sleeps_between_successes [] = True"
| "sleeps_between_successes (Saved p t # PacingSleep d # es) =
     (next_outcome_saved es \<and> sleeps_between_successes es)"
| "sleeps_between_successes (PacingSleep d # es) = False"
| "sleeps_between_successes (e # es) = sleeps_between_successes es"




text \<open>Inputs of the examples: a collaborator, an output directory, a formatter, metadata.\<close>

definition says_hello :: client where
  "says_hello k f = Transcript ''hello''"

definition b_is_transcribed :: "string \<rightharpoonup> string" where
  "b_is_transcribed = [''b.txt'' \<mapsto> ''old'']"



section \<open>Properties of the Transcriber\<close>

text \<open>The loop is unfolded one step at a time, by the lemmas that follow.\<close>

declare transcribe_loop.simps [simp del]

lemma transcribe_loop_done:
  "\<not> a < m \<Longrightarrow> transcribe_loop cl f m a w = (None, w)"
  by (subst transcribe_loop.simps) simp

lemma transcribe_loop_success:
  "a < m \<Longrightarrow> cl (attempts w) f = Transcript t \<Longrightarrow>
   transcribe_loop cl f m a w = (Some t, call_api f w)"
  by (subst transcribe_loop.simps) simp

lemma transcribe_loop_quota:
  "a < m \<Longrightarrow> cl (attempts w) f = RateLimitError msg \<Longrightarrow> insufficient_quota msg \<Longrightarrow>
   transcribe_loop cl f m a w = (None, emit QuotaMessage (call_api f w))"
  by (subst transcribe_loop.simps) simp

lemma transcribe_loop_rate_retry:
  "a < m - 1 \<Longrightarrow> cl (attempts w) f = RateLimitError msg \<Longrightarrow> \<not> insufficient_quota msg \<Longrightarrow>
   transcribe_loop cl f m a w =
     transcribe_loop cl f m (a + 1) (emit (RateLimitSleep ((a + 1) * 60)) (call_api f w))"
  by (subst transcribe_loop.simps) (simp add: Let_def)

lemma transcribe_loop_rate_last:
  "a < m \<Longrightarrow> \<not> a < m - 1 \<Longrightarrow> cl (attempts w) f = RateLimitError msg \<Longrightarrow>
   \<not> insufficient_quota msg \<Longrightarrow> transcribe_loop cl f m a w = (None, call_api f w)"
  by (subst transcribe_loop.simps) (simp add: Let_def)

lemma transcribe_loop_other_retry:
  "a < m - 1 \<Longrightarrow> cl (attempts w) f = OtherError msg \<Longrightarrow>
   transcribe_loop cl f m a w =
     transcribe_loop cl f m (a + 1) (emit (RetrySleep 5) (call_api f w))"
  by (subst transcribe_loop.simps) (simp add: Let_def)

lemma transcribe_loop_other_last:
  "a < m \<Longrightarrow> \<not> a < m - 1 \<Longrightarrow> cl (attempts w) f = OtherError msg \<Longrightarrow>
   transcribe_loop cl f m a w = (None, call_api f w)"
  by (subst transcribe_loop.simps) (simp add: Let_def)



lemma call_api_eq:
  "call_api f w = w\<lparr>attempts := attempts w + 1, trace := trace w @ [Attempt f]\<rparr>"
  by (simp add: call_api_def emit_def)


lemma transcribe_loop_frame:
  "\<exists>k tr. snd (transcribe_loop cl f m a w) = w\<lparr>attempts := k, trace := trace w @ tr\<rparr> \<and>
          list_all (transcriber_event f) tr \<and> (a < m \<longrightarrow> tr \<noteq> [] \<and> hd tr = Attempt f)"
proof (induction cl f m a w rule: transcribe_loop.induct)
  case (1 cl f m a w)
  let ?w1 = "call_api f w"
  show ?case
  proof (cases "a < m")
    case False
    then show ?thesis
      by (intro exI[of _ "attempts w"] exI[of _ "[]"]) (simp add: transcribe_loop_done)
  next
    case am: True
    show ?thesis
    proof (cases "cl (attempts w) f")
      case (Transcript t)
      then show ?thesis using am
        by (intro exI[of _ "attempts w + 1"] exI[of _ "[Attempt f]"])
           (simp add: transcribe_loop_success call_api_eq)
    next
      case (RateLimitError msg)
      show ?thesis
      proof (cases "insufficient_quota msg")
        case True
        then show ?thesis using am RateLimitError
          by (intro exI[of _ "attempts w + 1"] exI[of _ "[Attempt f, QuotaMessage]"])
             (simp add: transcribe_loop_quota call_api_eq emit_def)
      next
        case nq: False
        show ?thesis
        proof (cases "a < m - 1")
          case True
          let ?w2 = "emit (RateLimitSleep ((a + 1) * 60)) ?w1"
          from "1.IH"(1)[OF am refl RateLimitError nq refl True]
          obtain k tr where kt: "snd (transcribe_loop cl f m (a + 1) ?w2) = ?w2\<lparr>attempts := k, trace := trace ?w2 @ tr\<rparr>"
            and ev: "list_all (transcriber_event f) tr" by blast
          have "snd (transcribe_loop cl f m a w) = snd (transcribe_loop cl f m (a + 1) ?w2)"
            using RateLimitError nq True by (simp add: transcribe_loop_rate_retry)
          also have "\<dots> = w\<lparr>attempts := k, trace := trace w @ ([Attempt f, RateLimitSleep ((a + 1) * 60)] @ tr)\<rparr>"
            using kt by (simp add: call_api_def emit_def)
          finally show ?thesis using ev
            by (intro exI[of _ k] exI[of _ "[Attempt f, RateLimitSleep ((a + 1) * 60)] @ tr"]) simp
        next
          case False
          then show ?thesis using am RateLimitError nq
            by (intro exI[of _ "attempts w + 1"] exI[of _ "[Attempt f]"])
               (simp add: transcribe_loop_rate_last call_api_eq)
        qed
      qed
    next
      case (OtherError msg)
      show ?thesis
      proof (cases "a < m - 1")
        case True
        let ?w2 = "emit (RetrySleep 5) ?w1"
        from "1.IH"(2)[OF am refl OtherError True]
        obtain k tr where kt: "snd (transcribe_loop cl f m (a + 1) ?w2) = ?w2\<lparr>attempts := k, trace := trace ?w2 @ tr\<rparr>"
          and ev: "list_all (transcriber_event f) tr" by blast
        have "snd (transcribe_loop cl f m a w) = snd (transcribe_loop cl f m (a + 1) ?w2)"
          using OtherError True by (simp add: transcribe_loop_other_retry)
        also have "\<dots> = w\<lparr>attempts := k, trace := trace w @ ([Attempt f, RetrySleep 5] @ tr)\<rparr>"
          using kt by (simp add: call_api_def emit_def)
        finally show ?thesis using ev
          by (intro exI[of _ k] exI[of _ "[Attempt f, RetrySleep 5] @ tr"]) simp
      next
        case False
        then show ?thesis using am OtherError
          by (intro exI[of _ "attempts w + 1"] exI[of _ "[Attempt f]"])
             (simp add: transcribe_loop_other_last call_api_eq)
      qed
    qed
  qed
qed



text \<open>
  Claim C3 (quota short-circuit): when the first answer of the collaborator is a rate-limit
  error that reports insufficient quota, \<open>transcribe_audio\<close> returns \<^verbatim>\<open>None\<close> after
  that one attempt: the world after holds one more attempt and no sleep.
\<close>

theorem quota_short_circuit:
  assumes "cl (attempts w) file_path = RateLimitError msg"
    and "insufficient_quota msg"
    and "0 < max_retries"
  shows "transcribe_audio file_path cl max_retries w =
           (None, w\<lparr>attempts := attempts w + 1,
                     trace := trace w @ [Attempt file_path, QuotaMessage]\<rparr>) \<and>
         transcribe_audio_default file_path cl w =
           (None, w\<lparr>attempts := attempts w + 1,
                     trace := trace w @ [Attempt file_path, QuotaMessage]\<rparr>)"
proof -
  have "transcribe_loop cl file_path m 0 w =
          (None, w\<lparr>attempts := attempts w + 1,
                    trace := trace w @ [Attempt file_path, QuotaMessage]\<rparr>)"
    if "0 < m" for m
    using transcribe_loop_quota[of 0 m cl w file_path msg] that assms(1) assms(2)
    by (simp add: call_api_eq emit_def)
  from this[OF assms(3)] this[of 3] show ?thesis
    by (simp add: transcribe_audio_def transcribe_audio_default_def)
qed

theorem quota_short_circuit_witness:
  "(\<lambda>k f. RateLimitError ''Error code: 429 - insufficient_quota'')
      (attempts \<lparr>attempts = 0, trace = []\<rparr>) ''a.mp3''
     = RateLimitError ''Error code: 429 - insufficient_quota'' \<and>
   insufficient_quota ''Error code: 429 - insufficient_quota'' \<and>
   (0::int) < 3 \<and>
   transcribe_audio ''a.mp3'' (\<lambda>k f. RateLimitError ''Error code: 429 - insufficient_quota'') 3
       \<lparr>attempts = 0, trace = []\<rparr>
     = (None, \<lparr>attempts = 1, trace = [Attempt ''a.mp3'', QuotaMessage]\<rparr>)"
proof -
  let ?msg = "''Error code: 429 - insufficient_quota''"
  let ?cl = "\<lambda>(k::nat) (f::string). RateLimitError ?msg"
  let ?w = "\<lparr>attempts = 0, trace = []\<rparr>"
  have h1: "?cl (attempts ?w) ''a.mp3'' = RateLimitError ?msg" by simp
  have h2: "insufficient_quota ?msg"
    by (simp add: insufficient_quota_def lower_def lower_char_def)
  have h3: "(0::int) < 3" by simp
  show ?thesis
    using h1 h2 h3 quota_short_circuit[of ?cl ?w "''a.mp3''" ?msg 3] by simp
qed

section \<open>Properties of the AudioFetcher\<close>

text \<open>The float quotient: exact below \<open>2 ^ 53\<close> bytes, and never below \<open>2 ^ 53\<close> above.\<close>

declare bit_length.simps [simp del]

lemma bit_length_le_iff: "bit_length n \<le> k \<longleftrightarrow> n < 2 ^ k"
proof (induction n arbitrary: k rule: bit_length.induct)
  case (1 n)
  show ?case
  proof (cases "n = 0")
    case True
    then show ?thesis by (simp add: bit_length.simps)
  next
    case False
    show ?thesis
    proof (cases k)
      case 0
      then show ?thesis using False by (simp add: bit_length.simps)
    next
      case (Suc j)
      have "bit_length n \<le> Suc j \<longleftrightarrow> bit_length (n div 2) \<le> j"
        using False by (subst bit_length.simps) simp
      also have "\<dots> \<longleftrightarrow> n div 2 < 2 ^ j" using "1.IH"[OF False] by simp
      also have "\<dots> \<longleftrightarrow> n < 2 ^ Suc j" by auto
      finally show ?thesis using Suc by simp
    qed
  qed
qed

lemma bit_length_eq: "2 ^ k \<le> n \<Longrightarrow> n < 2 ^ Suc k \<Longrightarrow> bit_length n = Suc k"
proof -
  assume a: "2 ^ k \<le> n" and b: "n < 2 ^ Suc k"
  have "bit_length n \<le> Suc k" using b bit_length_le_iff by blast
  moreover have "\<not> bit_length n \<le> k" using a bit_length_le_iff[of n k] by simp
  ultimately show ?thesis by simp
qed

lemma nearest_double_small: "n < 2 ^ 53 \<Longrightarrow> nearest_double n = n"
  using bit_length_le_iff[of n 53] by (simp add: nearest_double_def)

lemma nearest_double_large:
  assumes "2 ^ 53 \<le> n"
  shows "2 ^ 53 \<le> nearest_double n"
proof -
  have nb: "\<not> bit_length n \<le> 53" using assms bit_length_le_iff[of n 53] by simp
  define e where "e = bit_length n - 54"
  have b: "bit_length n = Suc e + 53" using nb by (simp add: e_def)
  have d: "bit_length n - 53 = Suc e" using b by simp
  have "\<not> bit_length n \<le> e + 53" using b by simp
  then have low: "2 ^ (e + 53) \<le> n" using bit_length_le_iff[of n "e + 53"] by simp
  have split: "(2::nat) ^ (e + 53) = 2 ^ 52 * 2 ^ Suc e" by (simp add: power_add)
  have "(2::nat) ^ 52 * 2 ^ Suc e \<le> n" using low unfolding split .
  then have q: "2 ^ 52 \<le> n div 2 ^ Suc e"
    by (simp add: less_eq_div_iff_mult_less_eq)
  have "(2::nat) ^ 52 * 2 ^ Suc e \<le> (n div 2 ^ Suc e) * 2 ^ Suc e"
    using q by (intro mult_le_mono) simp_all
  moreover have "(n div 2 ^ Suc e) * 2 ^ Suc e \<le> nearest_double n"
    using nb d by (simp add: nearest_double_def Let_def)
  moreover have "(2::nat) ^ 53 \<le> 2 ^ (e + 53)" by (intro power_increasing) simp_all
  ultimately show ?thesis unfolding split by linarith
qed

lemma check_file_size_fst:
  "fst (check_file_size name st_size max_size_mb)
     \<longleftrightarrow> int (nearest_double st_size) \<le> max_size_mb * (1024 * 1024)"
proof -
  let ?d = "nearest_double st_size"
  have "real ?d / (1024 * 1024) > real_of_int max_size_mb
          \<longleftrightarrow> real ?d > real_of_int max_size_mb * (1024 * 1024)"
    by (simp add: pos_less_divide_eq)
  also have "\<dots> \<longleftrightarrow> real_of_int (int ?d) > real_of_int (max_size_mb * (1024 * 1024))"
    by simp
  also have "\<dots> \<longleftrightarrow> int ?d > max_size_mb * (1024 * 1024)"
    by (simp only: of_int_less_iff)
  finally show ?thesis by (auto simp: check_file_size_def Let_def)
qed

lemma check_file_size_snd:
  "snd (check_file_size name st_size max_size_mb) =
     (if fst (check_file_size name st_size max_size_mb) then FileSizeOK else FileTooLarge name)"
  by (simp add: check_file_size_def Let_def)

lemma check_file_size_default_fst:
  "fst (check_file_size_default name st_size) \<longleftrightarrow> st_size \<le> 25 * 1024 * 1024"
proof (cases "st_size < 2 ^ 53")
  case True
  then show ?thesis
    unfolding check_file_size_default_def check_file_size_fst
    by (simp add: nearest_double_small)
next
  case False
  then have "2 ^ 53 \<le> nearest_double st_size" using nearest_double_large[of st_size] by simp
  then have "\<not> int (nearest_double st_size) \<le> 25 * (1024 * 1024)" by simp
  moreover have "\<not> st_size \<le> 25 * 1024 * 1024" using False by simp
  ultimately show ?thesis
    unfolding check_file_size_default_def check_file_size_fst by simp
qed

lemma nearest_double_tie: "nearest_double (2 ^ 53 + 1) = 2 ^ 53"
proof -
  have "bit_length (2 ^ 53 + 1) = Suc 53" by (rule bit_length_eq) simp_all
  then show ?thesis by (simp add: nearest_double_def Let_def)
qed

text \<open>
  Claim C10 (the ceiling is strict): a file of exactly \<open>25 * 1024 * 1024\<close> bytes passes
  \<open>check_file_size\<close> with the default limit and one byte more does not; with the default
  limit the check passes exactly when the size is at most \<open>25 * 1024 * 1024\<close> bytes. For
  any limit the check passes exactly when the double nearest to the size is at most
  \<open>max_size_mb * 1024 * 1024\<close>, which below \<open>2 ^ 53\<close> bytes is the size itself; for any
  limit up to \<open>2 ^ 33\<close> MB a file of at most the ceiling passes, whatever its size; a file
  of \<open>2 ^ 53 + 1\<close> bytes still passes a limit of \<open>2 ^ 33\<close> MB.
\<close>

lemma nearest_double_53: "nearest_double (2 ^ 53) = 2 ^ 53"
proof -
  have "bit_length (2 ^ 53) = Suc 53" by (rule bit_length_eq) simp_all
  then show ?thesis by (simp add: nearest_double_def Let_def)
qed

lemma check_file_size_passes:
  assumes "max_size_mb \<le> 2 ^ 33" and "int st_size \<le> max_size_mb * (1024 * 1024)"
  shows "fst (check_file_size name st_size max_size_mb)"
proof (cases "st_size < 2 ^ 53")
  case True
  then show ?thesis using assms(2) by (simp add: check_file_size_fst nearest_double_small)
next
  case False
  have "max_size_mb * (1024 * 1024) \<le> 2 ^ 33 * (1024 * 1024)"
    using assms(1) by (intro mult_right_mono) simp_all
  then have "int st_size \<le> 2 ^ 53" using assms(2) by simp
  then have eq: "st_size = 2 ^ 53" using False by simp
  have "int (nearest_double st_size) = int st_size"
    unfolding eq nearest_double_53 by simp
  then show ?thesis using assms(2) by (simp only: check_file_size_fst)
qed

theorem size_ceiling_is_strict:
  "check_file_size_default name (25 * 1024 * 1024) = (True, FileSizeOK) \<and>
   check_file_size_default name (25 * 1024 * 1024 + 1) = (False, FileTooLarge name) \<and>
   (fst (check_file_size_default name st_size) \<longleftrightarrow> st_size \<le> 25 * 1024 * 1024) \<and>
   (fst (check_file_size name st_size max_size_mb)
      \<longleftrightarrow> int (nearest_double st_size) \<le> max_size_mb * (1024 * 1024)) \<and>
   (st_size < 2 ^ 53 \<longrightarrow>
      (fst (check_file_size name st_size max_size_mb)
         \<longleftrightarrow> int st_size \<le> max_size_mb * (1024 * 1024))) \<and>
   (max_size_mb \<le> 2 ^ 33 \<and> int st_size \<le> max_size_mb * (1024 * 1024) \<longrightarrow>
      fst (check_file_size name st_size max_size_mb)) \<and>
   fst (check_file_size name (2 ^ 53 + 1) (2 ^ 33))"
proof -
  have b: "check_file_size_default name s =
     (if s \<le> 25 * 1024 * 1024 then (True, FileSizeOK) else (False, FileTooLarge name))" for s
    using check_file_size_default_fst[of name s] check_file_size_snd[of name s 25]
    by (simp add: check_file_size_default_def prod_eq_iff)
  have c: "fst (check_file_size name (2 ^ 53 + 1) (2 ^ 33))"
    unfolding check_file_size_fst nearest_double_tie by simp
  have d: "max_size_mb \<le> 2 ^ 33 \<and> int st_size \<le> max_size_mb * (1024 * 1024) \<longrightarrow>
      fst (check_file_size name st_size max_size_mb)"
    using check_file_size_passes by blast
  have e: "st_size < 2 ^ 53 \<longrightarrow>
      (fst (check_file_size name st_size max_size_mb)
         \<longleftrightarrow> int st_size \<le> max_size_mb * (1024 * 1024))"
    by (simp add: check_file_size_fst nearest_double_small)
  have f: "fst (check_file_size name st_size max_size_mb)
      \<longleftrightarrow> int (nearest_double st_size) \<le> max_size_mb * (1024 * 1024)"
    by (rule check_file_size_fst)
  have g: "fst (check_file_size_default name st_size) \<longleftrightarrow> st_size \<le> 25 * 1024 * 1024"
    by (rule check_file_size_default_fst)
  have h: "check_file_size_default name (25 * 1024 * 1024) = (True, FileSizeOK)"
    "check_file_size_default name (25 * 1024 * 1024 + 1) = (False, FileTooLarge name)"
    by (simp_all add: b)
  from h g f e d c show ?thesis by (intro conjI)
qed

theorem size_ceiling_is_strict_witness:
  "(26214400::nat) < 2 ^ 53 \<and>
   (25::int) \<le> 2 ^ 33 \<and> int 26214400 \<le> 25 * (1024 * 1024) \<and>
   fst (check_file_size ''a.mp3'' 26214400 25) \<and>
   \<not> fst (check_file_size ''a.mp3'' 26214401 25)"
  using size_ceiling_is_strict[of "''a.mp3''" 26214400 25]
    size_ceiling_is_strict[of "''a.mp3''" 26214401 25]
  by (simp add: nearest_double_small)

text \<open>
  Claim C8 (the size check is a soft limit): when the downloader succeeds and a new
  mp3 file appears, \<open>download_audio_if_needed\<close> returns that file whatever its size,
  prints the result of the size check against 25 MB, and the download loop of \<open>main\<close>
  appends the file to \<^verbatim>\<open>downloaded_files\<close>.
\<close>

theorem oversized_download_is_kept:
  assumes "dl url before_files = (True, after_files)"
    and "new_files_of before_files after_files \<noteq> []"
  shows "\<exists>name st_size.
           (name, st_size) \<in> set (new_files_of before_files after_files) \<and>
           download_audio_if_needed pop dl url before_files
             = (Some name,
                [Downloaded name,
                 if st_size \<le> 25 * 1024 * 1024 then FileSizeOK else FileTooLarge name],
                after_files) \<and>
           download_loop pop dl [url] (downloaded_files, printed, before_files)
             = (downloaded_files @ [name],
                printed @ [Downloaded name,
                 if st_size \<le> 25 * 1024 * 1024 then FileSizeOK else FileTooLarge name],
                after_files)"
proof -
  let ?new = "new_files_of before_files after_files"
  let ?f = "?new ! (pop ?new mod length ?new)"
  have len: "pop ?new mod length ?new < length ?new" using assms(2) by simp
  then have mem: "(fst ?f, snd ?f) \<in> set ?new" by simp
  have rep: "snd (check_file_size_default (fst ?f) (snd ?f)) =
      (if snd ?f \<le> 25 * 1024 * 1024 then FileSizeOK else FileTooLarge (fst ?f))"
    using check_file_size_default_fst[of "fst ?f" "snd ?f"]
      check_file_size_snd[of "fst ?f" "snd ?f" 25]
    by (simp add: check_file_size_default_def)
  have d: "download_audio_if_needed pop dl url before_files =
      (Some (fst ?f), [Downloaded (fst ?f),
        if snd ?f \<le> 25 * 1024 * 1024 then FileSizeOK else FileTooLarge (fst ?f)], after_files)"
    using assms rep by (simp add: download_audio_if_needed_def Let_def)
  have "download_loop pop dl [url] (downloaded_files, printed, before_files) =
      (downloaded_files @ [fst ?f], printed @ [Downloaded (fst ?f),
        if snd ?f \<le> 25 * 1024 * 1024 then FileSizeOK else FileTooLarge (fst ?f)], after_files)"
    by (simp add: d)
  with mem d show ?thesis by blast
qed

theorem oversized_download_is_kept_witness:
  "(\<lambda>url before. (True, before @ [(''big.mp3'', 30000000)])) ''https://youtu.be/abc'' [(''old.mp3'', 100)]
      = (True, [(''old.mp3'', 100), (''big.mp3'', 30000000)]) \<and>
   new_files_of [(''old.mp3'', 100)] [(''old.mp3'', 100), (''big.mp3'', 30000000)] \<noteq> [] \<and>
   download_audio_if_needed (\<lambda>new. 0) (\<lambda>url before. (True, before @ [(''big.mp3'', 30000000)]))
       ''https://youtu.be/abc'' [(''old.mp3'', 100)]
     = (Some ''big.mp3'', [Downloaded ''big.mp3'', FileTooLarge ''big.mp3''],
        [(''old.mp3'', 100), (''big.mp3'', 30000000)])"
proof -
  let ?dl = "\<lambda>(url::string) (before::mp3_files). (True, before @ [(''big.mp3'', 30000000::nat)])"
  have h1: "?dl ''https://youtu.be/abc'' [(''old.mp3'', 100)]
      = (True, [(''old.mp3'', 100), (''big.mp3'', 30000000)])" by simp
  have n: "new_files_of [(''old.mp3'', 100)] [(''old.mp3'', 100), (''big.mp3'', 30000000::nat)]
      = [(''big.mp3'', 30000000)]"
    by (simp add: new_files_of_def)
  have h2: "new_files_of [(''old.mp3'', 100)] [(''old.mp3'', 100), (''big.mp3'', 30000000::nat)] \<noteq> []"
    by (simp add: n)
  show ?thesis
    using h1 h2 oversized_download_is_kept[where dl = ?dl and url = "''https://youtu.be/abc''"
        and before_files = "[(''old.mp3'', 100)]"
        and after_files = "[(''old.mp3'', 100), (''big.mp3'', 30000000)]"
        and pop = "\<lambda>new. 0" and downloaded_files = "[]" and printed = "[]"]
    by (auto simp: n)
qed

section \<open>Properties of the VideoListResolver\<close>






section \<open>Properties of the RunCoordinator\<close>

text \<open>
  What one iteration of the transcription loop does, by cases: the transcript exists, the
  transcription fails, or the transcript is saved.
\<close>

lemma transcribe_audio_default_frame:
  "\<exists>k tr. snd (transcribe_audio_default f cl st) = st\<lparr>attempts := k, trace := trace st @ tr\<rparr> \<and>
          list_all (transcriber_event f) tr \<and> tr \<noteq> [] \<and> hd tr = Attempt f"
  using transcribe_loop_frame[of cl f 3 0 st]
  by (simp add: transcribe_audio_default_def transcribe_audio_def)

lemma process_file_cases:
  assumes "process_file cl delay n i f st = (exc, st')"
  obtains
    (exists) "transcripts st (transcript_file_of f) \<noteq> None" and "exc = None"
      and "st' = st\<lparr>trace := trace st @ [AlreadyExists (transcript_file_of f)],
                     skipped_count := skipped_count st + 1\<rparr>"
  | (failed) k tr where "transcripts st (transcript_file_of f) = None" and "exc = None"
      and "list_all (transcriber_event f) tr" and "tr \<noteq> []" and "hd tr = Attempt f"
      and "\<not> truthy_text (fst (transcribe_audio_default f cl st))"
      and "st' = st\<lparr>attempts := k, trace := trace st @ tr @ [SkippedTranscription f],
                     skipped_count := skipped_count st + 1\<rparr>"
  | (saved) k tr t where "transcripts st (transcript_file_of f) = None"
      and "fst (transcribe_audio_default f cl st) = Some t" and "t \<noteq> []"
      and "list_all (transcriber_event f) tr" and "tr \<noteq> []" and "hd tr = Attempt f"
      and "exc = (if i < n then sleep_raises delay else None)"
      and "st' = st\<lparr>attempts := k,
                     trace := trace st @ tr @ Saved (transcript_file_of f) t #
                                (if i < n \<and> sleep_raises delay = None then [PacingSleep delay] else []),
                     transcripts := (transcripts st)(transcript_file_of f \<mapsto> t),
                     transcribed_count := transcribed_count st + 1\<rparr>"
proof (cases "transcripts st (transcript_file_of f) \<noteq> None")
  case True
  then show ?thesis using assms exists
    by (auto simp: process_file_def emit_def)
next
  case none: False
  obtain k tr where fr: "snd (transcribe_audio_default f cl st) = st\<lparr>attempts := k, trace := trace st @ tr\<rparr>"
    and ev: "list_all (transcriber_event f) tr" "tr \<noteq> []" "hd tr = Attempt f"
    using transcribe_audio_default_frame by blast
  obtain res st1 where r: "transcribe_audio_default f cl st = (res, st1)" by fastforce
  with fr have st1: "st1 = st\<lparr>attempts := k, trace := trace st @ tr\<rparr>" by simp
  show ?thesis
  proof (cases "truthy_text res")
    case False
    then have "exc = None" and "st' = st\<lparr>attempts := k, trace := trace st @ tr @ [SkippedTranscription f],
                     skipped_count := skipped_count st + 1\<rparr>"
      using assms none r st1 by (auto simp: process_file_def skip_transcription_def emit_def)
    then show ?thesis using failed[of tr k] none ev False r by simp
  next
    case True
    then obtain t where t: "res = Some t" "t \<noteq> []" by (cases res) auto
    have "exc = (if i < n then sleep_raises delay else None)"
      and "st' = st\<lparr>attempts := k,
                     trace := trace st @ tr @ Saved (transcript_file_of f) t #
                                (if i < n \<and> sleep_raises delay = None then [PacingSleep delay] else []),
                     transcripts := (transcripts st)(transcript_file_of f \<mapsto> t),
                     transcribed_count := transcribed_count st + 1\<rparr>"
      using assms none r st1 t
      by (auto simp: process_file_def save_transcript_def emit_def Let_def
               split: if_splits option.splits)
    then show ?thesis using saved[of t tr k] none ev t r by simp
  qed
qed


lemma transcriber_event_kind:
  "transcriber_event f e \<Longrightarrow> \<not> is_saved e \<and> \<not> is_pacing e \<and> \<not> is_skip e"
  by (cases e) auto

lemma transcriber_events_filter:
  assumes "list_all (transcriber_event f) tr"
  shows "filter is_saved tr = []" and "filter is_skip tr = []"
  using assms transcriber_event_kind by (auto simp: list_all_iff filter_empty_conv)

lemma transcriber_events_attempt:
  "list_all (transcriber_event f) tr \<Longrightarrow> Attempt g \<in> set tr \<Longrightarrow> g = f"
  by (auto simp: list_all_iff)

lemma transcriber_events_last:
  assumes "list_all (transcriber_event f) tr" and "tr \<noteq> []"
  shows "\<not> is_saved (last tr) \<and> \<not> is_pacing (last tr)"
proof -
  have "last tr \<in> set tr" using assms(2) by simp
  then have "transcriber_event f (last tr)" using assms(1) by (simp add: list_all_iff)
  then show ?thesis using transcriber_event_kind by blast
qed

lemma transcriber_events_successively:
  assumes "list_all (transcriber_event f) tr"
  shows "successively (pacing_step delay) tr"
proof -
  have "pacing_step delay (tr ! j) (tr ! Suc j)" if "Suc j < length tr" for j
  proof -
    have "transcriber_event f (tr ! j)" "transcriber_event f (tr ! Suc j)"
      using assms that by (simp_all add: list_all_length)
    then show ?thesis using transcriber_event_kind by (simp add: pacing_step_def)
  qed
  then show ?thesis by (simp add: successively_conv_nth)
qed

lemma process_file_item:
  assumes "process_file cl delay n i f st = (exc, st')"
  obtains item where "trace st' = trace st @ item"
    and "item \<noteq> []" and "starts_item (hd item)"
    and "successively (pacing_step delay) item"
    and "is_pacing (last item) \<longrightarrow> i < n \<and> exc = None"
    and "is_saved (last item) \<longrightarrow> exc \<noteq> None \<or> \<not> i < n"
    and "transcribed_count st' = transcribed_count st + int (length (filter is_saved item))"
    and "skipped_count st' = skipped_count st + int (length (filter is_skip item))"
    and "length (filter is_saved item) + length (filter is_skip item) = 1"
    and "\<forall>g. Attempt g \<in> set item \<longrightarrow> g = f \<and> transcripts st (transcript_file_of f) = None"
    and "\<forall>p c. transcripts st p = Some c \<longrightarrow> transcripts st' p = Some c"
using assms
proof (cases rule: process_file_cases)
  case exists
  show ?thesis
    by (rule that[of "[AlreadyExists (transcript_file_of f)]"]) (simp_all add: exists)
next
  case (failed k tr)
  note ev = \<open>list_all (transcriber_event f) tr\<close>
  have l: "\<not> is_saved (last tr) \<and> \<not> is_pacing (last tr)"
    using transcriber_events_last[OF ev \<open>tr \<noteq> []\<close>] .
  have s: "successively (pacing_step delay) (tr @ [SkippedTranscription f])"
    using transcriber_events_successively[OF ev, of delay] l \<open>tr \<noteq> []\<close>
    by (simp add: successively_append_iff pacing_step_def)
  show ?thesis
  proof (rule that[of "tr @ [SkippedTranscription f]"])
    show "\<forall>g. Attempt g \<in> set (tr @ [SkippedTranscription f]) \<longrightarrow>
              g = f \<and> transcripts st (transcript_file_of f) = None"
      using transcriber_events_attempt[OF ev] failed(1) by auto
  qed (use failed s transcriber_events_filter[OF ev] in simp_all)
next
  case (saved k tr t)
  note ev = \<open>list_all (transcriber_event f) tr\<close>
  let ?tail = "if i < n \<and> sleep_raises delay = None then [PacingSleep delay] else []"
  let ?item = "tr @ Saved (transcript_file_of f) t # ?tail"
  have l: "\<not> is_saved (last tr) \<and> \<not> is_pacing (last tr)"
    using transcriber_events_last[OF ev \<open>tr \<noteq> []\<close>] .
  have s: "successively (pacing_step delay) ?item"
    using transcriber_events_successively[OF ev, of delay] l \<open>tr \<noteq> []\<close>
    by (simp add: successively_append_iff pacing_step_def)
  show ?thesis
  proof (rule that[of ?item])
    show "\<forall>g. Attempt g \<in> set ?item \<longrightarrow> g = f \<and> transcripts st (transcript_file_of f) = None"
      using transcriber_events_attempt[OF ev] saved(1) by auto
    show "\<forall>p c. transcripts st p = Some c \<longrightarrow> transcripts st' p = Some c"
      using saved(1) by (auto simp: saved(8))
    show "successively (pacing_step delay) ?item" by (rule s)
    show "is_pacing (last ?item) \<longrightarrow> i < n \<and> exc = None"
      using saved(7) by auto
    show "is_saved (last ?item) \<longrightarrow> exc \<noteq> None \<or> \<not> i < n"
      using saved(7) by auto
  qed (use saved transcriber_events_filter[OF ev] in simp_all)
qed


lemma transcription_loop_counts:
  "transcription_loop cl delay n i fs st = (exc, st') \<Longrightarrow>
   \<exists>new. trace st' = trace st @ new \<and>
     transcribed_count st' = transcribed_count st + int (length (filter is_saved new)) \<and>
     skipped_count st' = skipped_count st + int (length (filter is_skip new)) \<and>
     (exc = None \<longrightarrow> length (filter is_saved new) + length (filter is_skip new) = length fs)"
proof (induction fs arbitrary: i st)
  case Nil
  then show ?case by simp
next
  case (Cons f fs)
  obtain e1 st1 where p: "process_file cl delay n i f st = (e1, st1)" by fastforce
  from p obtain item where item: "trace st1 = trace st @ item"
    "transcribed_count st1 = transcribed_count st + int (length (filter is_saved item))"
    "skipped_count st1 = skipped_count st + int (length (filter is_skip item))"
    "length (filter is_saved item) + length (filter is_skip item) = 1"
    by (rule process_file_item)
  show ?case
  proof (cases e1)
    case (Some e)
    with Cons.prems p have "exc = Some e" "st' = st1" by simp_all
    with item show ?thesis by auto
  next
    case None
    with Cons.prems p have "transcription_loop cl delay n (i + 1) fs st1 = (exc, st')" by simp
    from Cons.IH[OF this] obtain new where new: "trace st' = trace st1 @ new"
      "transcribed_count st' = transcribed_count st1 + int (length (filter is_saved new))"
      "skipped_count st' = skipped_count st1 + int (length (filter is_skip new))"
      "exc = None \<longrightarrow> length (filter is_saved new) + length (filter is_skip new) = length fs"
      by blast
    show ?thesis
      by (rule exI[of _ "item @ new"]) (use item new in auto)
  qed
qed

lemma transcription_loop_frame:
  "transcription_loop cl delay n i fs st = (exc, st') \<Longrightarrow>
   \<exists>new. trace st' = trace st @ new \<and>
     (\<forall>p c. transcripts st p = Some c \<longrightarrow> transcripts st' p = Some c) \<and>
     (\<forall>g. Attempt g \<in> set new \<longrightarrow> transcripts st (transcript_file_of g) = None)"
proof (induction fs arbitrary: i st)
  case Nil
  then show ?case by simp
next
  case (Cons f fs)
  obtain e1 st1 where p: "process_file cl delay n i f st = (e1, st1)" by fastforce
  from p obtain item where item: "trace st1 = trace st @ item"
    "\<forall>g. Attempt g \<in> set item \<longrightarrow> g = f \<and> transcripts st (transcript_file_of f) = None"
    "\<forall>p c. transcripts st p = Some c \<longrightarrow> transcripts st1 p = Some c"
    by (rule process_file_item)
  show ?case
  proof (cases e1)
    case (Some e)
    with Cons.prems p have "exc = Some e" "st' = st1" by simp_all
    with item show ?thesis by auto
  next
    case None
    with Cons.prems p have "transcription_loop cl delay n (i + 1) fs st1 = (exc, st')" by simp
    from Cons.IH[OF this] obtain new where new: "trace st' = trace st1 @ new"
      "\<forall>p c. transcripts st1 p = Some c \<longrightarrow> transcripts st' p = Some c"
      "\<forall>g. Attempt g \<in> set new \<longrightarrow> transcripts st1 (transcript_file_of g) = None"
      by blast
    have "transcripts st (transcript_file_of g) = None" if "Attempt g \<in> set new" for g
    proof (cases "transcripts st (transcript_file_of g)")
      case None
      then show ?thesis .
    next
      case (Some c)
      then have "transcripts st1 (transcript_file_of g) = Some c" using item(3) by blast
      then show ?thesis using new(3) that by simp
    qed
    then show ?thesis
      by (intro exI[of _ "item @ new"]) (use item new in auto)
  qed
qed

lemma transcription_loop_pacing:
  "transcription_loop cl delay n i fs st = (exc, st') \<Longrightarrow> int (length fs) = n - i + 1 \<Longrightarrow>
   \<exists>new. trace st' = trace st @ new \<and>
     (fs \<noteq> [] \<longrightarrow> new \<noteq> [] \<and> starts_item (hd new)) \<and>
     successively (pacing_step delay) new \<and>
     (new \<noteq> [] \<longrightarrow> \<not> is_pacing (last new))"
proof (induction fs arbitrary: i st)
  case Nil
  then show ?case by simp
next
  case (Cons f fs)
  obtain e1 st1 where p: "process_file cl delay n i f st = (e1, st1)" by fastforce
  from p obtain item where item: "trace st1 = trace st @ item"
    "item \<noteq> []" "starts_item (hd item)"
    "successively (pacing_step delay) item"
    "is_pacing (last item) \<longrightarrow> i < n \<and> e1 = None"
    "is_saved (last item) \<longrightarrow> e1 \<noteq> None \<or> \<not> i < n"
    by (rule process_file_item)
  have len: "int (length fs) = n - (i + 1) + 1" using Cons.prems(2) by simp
  show ?case
  proof (cases e1)
    case (Some e)
    with Cons.prems p have "exc = Some e" "st' = st1" by simp_all
    with item Some show ?thesis by auto
  next
    case None
    with Cons.prems p have l: "transcription_loop cl delay n (i + 1) fs st1 = (exc, st')" by simp
    from Cons.IH[OF l len] obtain new where new: "trace st' = trace st1 @ new"
      "fs \<noteq> [] \<longrightarrow> new \<noteq> [] \<and> starts_item (hd new)"
      "successively (pacing_step delay) new"
      "new \<noteq> [] \<longrightarrow> \<not> is_pacing (last new)"
      by blast
    have nil: "new = []" if "fs = []"
      using l that new(1) by simp
    have fs_ne: "fs \<noteq> []" if "i < n" using len that by auto
    have fs_nil: "fs = []" if "\<not> i < n"
    proof -
      have "int (length fs) \<le> 0" using len that by linarith
      then show ?thesis by simp
    qed
    have join: "pacing_step delay (last item) (hd new)" if "new \<noteq> []"
    proof -
      have "fs \<noteq> []" using nil that by blast
      then have h: "starts_item (hd new)" and "i < n" using new(2) fs_nil by auto
      then have "\<not> is_saved (last item)" using item(6) None by simp
      moreover have "\<not> is_pacing (hd new)" using h by (cases "hd new") auto
      ultimately show ?thesis using h by (simp add: pacing_step_def)
    qed
    have last_ok: "\<not> is_pacing (last (item @ new))"
    proof (cases "new = []")
      case True
      have "\<not> is_pacing (last item)"
      proof
        assume "is_pacing (last item)"
        then have "i < n" using item(5) by simp
        then show False using fs_ne new(2) True by simp
      qed
      then show ?thesis using True by simp
    next
      case False
      then show ?thesis using new(4) by simp
    qed
    show ?thesis
    proof (intro exI[of _ "item @ new"] conjI impI)
      show "trace st' = trace st @ item @ new" using item(1) new(1) by simp
      show "item @ new \<noteq> []" using item(2) by simp
      show "starts_item (hd (item @ new))" using item(2,3) by simp
      show "successively (pacing_step delay) (item @ new)"
        using item(2,4) new(3) join by (auto simp: successively_append_iff)
      show "\<not> is_pacing (last (item @ new))" by (rule last_ok)
    qed
  qed
qed

text \<open>The whole phase: the shape of its trace and what its counters count.\<close>

lemma phase_trace_shape:
  assumes "transcription_phase cl delay files ts = (exc, st)"
  shows "successively (pacing_step delay) (trace st)"
    and "trace st \<noteq> [] \<Longrightarrow> \<not> is_pacing (last (trace st)) \<and> starts_item (hd (trace st))"
proof -
  have l: "transcription_loop cl delay (int (length files)) 1 files (initial_state ts) = (exc, st)"
    using assms by (simp add: transcription_phase_def)
  from transcription_loop_pacing[OF l] obtain new where
    new: "trace st = trace (initial_state ts) @ new"
      "files \<noteq> [] \<longrightarrow> new \<noteq> [] \<and> starts_item (hd new)"
      "successively (pacing_step delay) new" "new \<noteq> [] \<longrightarrow> \<not> is_pacing (last new)"
    by auto
  have eq: "trace st = new" using new(1) by (simp add: initial_state_def)
  show "successively (pacing_step delay) (trace st)" using new(3) eq by simp
  show "\<not> is_pacing (last (trace st)) \<and> starts_item (hd (trace st))" if "trace st \<noteq> []"
  proof -
    have "files \<noteq> []"
    proof
      assume "files = []"
      then have "st = initial_state ts" using l by simp
      then show False using that by (simp add: initial_state_def)
    qed
    then show ?thesis using new(2,4) eq by simp
  qed
qed

lemma run_transcription_Inr:
  assumes "run_transcription cl delay files ts = Inr s"
  obtains st where "transcription_phase cl delay files ts = (None, st)"
    and "s = completion_summary files st"
proof -
  obtain e st where p: "transcription_phase cl delay files ts = (e, st)" by fastforce
  with assms have "e = None" "s = completion_summary files st"
    by (cases e; simp add: run_transcription_def)+
  with p that show ?thesis by blast
qed

lemma phase_counts:
  assumes "transcription_phase cl delay files ts = (exc, st)"
  shows "transcribed_count st = int (length (filter is_saved (trace st)))"
    and "skipped_count st = int (length (filter is_skip (trace st)))"
    and "exc = None \<Longrightarrow> transcribed_count st + skipped_count st = int (length files)"
proof -
  have l: "transcription_loop cl delay (int (length files)) 1 files (initial_state ts) = (exc, st)"
    using assms by (simp add: transcription_phase_def)
  from transcription_loop_counts[OF l] obtain new where
    new: "trace st = trace (initial_state ts) @ new"
      "transcribed_count st = transcribed_count (initial_state ts) + int (length (filter is_saved new))"
      "skipped_count st = skipped_count (initial_state ts) + int (length (filter is_skip new))"
      "exc = None \<longrightarrow> length (filter is_saved new) + length (filter is_skip new) = length files"
    by blast
  have eq: "trace st = new" using new(1) by (simp add: initial_state_def)
  show "transcribed_count st = int (length (filter is_saved (trace st)))"
    using new(2) eq by (simp add: initial_state_def)
  show "skipped_count st = int (length (filter is_skip (trace st)))"
    using new(3) eq by (simp add: initial_state_def)
  show "transcribed_count st + skipped_count st = int (length files)" if "exc = None"
    using new(2,3,4) that by (simp add: initial_state_def)
qed

text \<open>A delay that \<^verbatim>\<open>time.sleep\<close> accepts lets every run reach the summary.\<close>

lemma sleep_raises_None:
  "sleep_raises secs = None \<longleftrightarrow> 0 \<le> secs \<and> secs \<le> 9223372036"
  by (simp add: sleep_raises_def)

lemma transcription_loop_completes:
  "sleep_raises delay = None \<Longrightarrow> fst (transcription_loop cl delay n i fs st) = None"
proof (induction fs arbitrary: i st)
  case Nil
  then show ?case by simp
next
  case (Cons f fs)
  obtain e1 st1 where p: "process_file cl delay n i f st = (e1, st1)" by fastforce
  then have "e1 = None" using Cons.prems by (cases rule: process_file_cases) simp_all
  then show ?case using p Cons.IH[OF Cons.prems] by simp
qed

lemma run_transcription_completes:
  assumes "0 \<le> delay" and "delay \<le> 9223372036"
  shows "\<exists>s. run_transcription cl delay files ts = Inr s"
proof -
  have ok: "sleep_raises delay = None" using assms by (simp add: sleep_raises_None)
  obtain e st where p: "transcription_phase cl delay files ts = (e, st)" by fastforce
  then have "e = None"
    using transcription_loop_completes[OF ok, of cl "int (length files)" 1 files "initial_state ts"]
    by (simp add: transcription_phase_def)
  then show ?thesis using p by (simp add: run_transcription_def)
qed

text \<open>Runs evaluated on concrete inputs.\<close>

lemmas eval_defs = transcription_phase_def initial_state_def process_file_def
  transcript_file_of_def stem_def transcribe_audio_default_def transcribe_audio_def
  transcribe_loop.simps call_api_def emit_def save_transcript_def skip_transcription_def
  sleep_raises_def insufficient_quota_def lower_def lower_char_def Let_def
  run_transcription_def completion_summary_def

lemma two_successes:
  "transcription_phase (\<lambda>k f. Transcript ''hello'') 5 [''a.mp3'', ''b.mp3''] Map.empty =
     (None, \<lparr>attempts = 2,
             trace = [Attempt ''a.mp3'', Saved ''a.txt'' ''hello'', PacingSleep 5,
                      Attempt ''b.mp3'', Saved ''b.txt'' ''hello''],
             transcripts = [''a.txt'' \<mapsto> ''hello'', ''b.txt'' \<mapsto> ''hello''],
             transcribed_count = 2, skipped_count = 0\<rparr>)"
  by (simp add: eval_defs)

lemma sleep_before_skip:
  "transcription_phase says_hello 7 [''a.mp3'', ''b.mp3''] b_is_transcribed =
     (None, \<lparr>attempts = 1,
             trace = [Attempt ''a.mp3'', Saved ''a.txt'' ''hello'', PacingSleep 7,
                      AlreadyExists ''b.txt''],
             transcripts = [''b.txt'' \<mapsto> ''old'', ''a.txt'' \<mapsto> ''hello''],
             transcribed_count = 1, skipped_count = 1\<rparr>)"
  by (simp add: eval_defs says_hello_def b_is_transcribed_def)

lemma mixed_run:
  "transcription_phase (\<lambda>k f. if f = ''c.mp3'' then Transcript ''hello'' else OtherError ''reset'')
      5 [''a.mp3'', ''b.mp3'', ''c.mp3''] [''a.txt'' \<mapsto> ''old''] =
     (None, \<lparr>attempts = 4,
             trace = [AlreadyExists ''a.txt'',
                      Attempt ''b.mp3'', RetrySleep 5, Attempt ''b.mp3'', RetrySleep 5,
                      Attempt ''b.mp3'', SkippedTranscription ''b.mp3'',
                      Attempt ''c.mp3'', Saved ''c.txt'' ''hello''],
             transcripts = [''a.txt'' \<mapsto> ''old'', ''c.txt'' \<mapsto> ''hello''],
             transcribed_count = 1, skipped_count = 2\<rparr>)"
  by (simp add: eval_defs)

lemma mixed_run_summary:
  "run_transcription (\<lambda>k f. if f = ''c.mp3'' then Transcript ''hello'' else OtherError ''reset'')
      5 [''a.mp3'', ''b.mp3'', ''c.mp3''] [''a.txt'' \<mapsto> ''old''] =
     Inr \<lparr>total_audio_files = 3, successfully_transcribed = 1,
          skipped_already_existed = 2, failed = 0\<rparr>"
  by (simp add: run_transcription_def mixed_run completion_summary_def)

lemma failing_item:
  "process_file (\<lambda>k f. OtherError ''reset'') 5 1 1 ''b.mp3'' (initial_state Map.empty) =
     (None, \<lparr>attempts = 3,
             trace = [Attempt ''b.mp3'', RetrySleep 5, Attempt ''b.mp3'', RetrySleep 5,
                      Attempt ''b.mp3'', SkippedTranscription ''b.mp3''],
             transcripts = Map.empty, transcribed_count = 0, skipped_count = 1\<rparr>)"
  by (simp add: eval_defs)

lemma failing_item_text:
  "fst (transcribe_audio_default ''b.mp3'' (\<lambda>k f. OtherError ''reset'') (initial_state Map.empty))
     = None"
  by (simp add: eval_defs)

text \<open>
  Claim C1 (a failed transcription is counted as failed, the run goes on): evaluated on one
  audio file without a transcript and a collaborator that raises on every call. The run
  goes on to the summary, but the item is added to \<^verbatim>\<open>skipped_count\<close>: the summary
  prints "Skipped (already existed): 1" and "Failed: 0".
\<close>

theorem failed_transcription_counted_as_skipped:
  "run_transcription (\<lambda>k f. OtherError ''connection reset'') 5 [''talk.mp3''] Map.empty =
     Inr \<lparr>total_audio_files = 1, successfully_transcribed = 0,
          skipped_already_existed = 1, failed = 0\<rparr>"
  by (simp add: eval_defs)

text \<open>
  Claim C4 (pacing only after success), as amended: in the trace of every run, a pacing
  sleep has the configured delay, comes right after a saved transcript (so not after a
  transcript found on disk, and not after a failed transcription), and is followed by the
  first event of another iteration (so it is not after the final item), whether or not
  that iteration saves a transcript. Whatever comes right after a saved transcript is the
  pacing sleep.
\<close>

theorem pacing_only_after_success:
  assumes "transcription_phase cl delay all_mp3_files ts = (exc, st)"
    and "k < length (trace st)"
    and "trace st ! k = PacingSleep d"
  shows "d = delay \<and> 0 < k \<and> (\<exists>p t. trace st ! (k - 1) = Saved p t) \<and>
         Suc k < length (trace st) \<and>
         (\<exists>f. trace st ! Suc k = AlreadyExists f \<or> trace st ! Suc k = Attempt f) \<and>
         (\<forall>j p t. Suc j < length (trace st) \<and> trace st ! j = Saved p t
            \<longrightarrow> trace st ! Suc j = PacingSleep delay)"
proof -
  let ?tr = "trace st"
  have ne: "?tr \<noteq> []" using assms(2) by auto
  note shape = phase_trace_shape[OF assms(1)]
  have step: "pacing_step delay (?tr ! j) (?tr ! Suc j)" if "Suc j < length ?tr" for j
    using shape(1) that by (simp add: successively_conv_nth)
  have "starts_item (hd ?tr)" using shape(2) ne by simp
  then have "\<not> is_pacing (?tr ! 0)" using ne by (cases "?tr ! 0") (auto simp: hd_conv_nth)
  then have k0: "0 < k" using assms(3) by (cases k) auto
  then have "pacing_step delay (?tr ! (k - 1)) (?tr ! k)" using step[of "k - 1"] assms(2) by simp
  then have d: "d = delay" and sv: "is_saved (?tr ! (k - 1))"
    using assms(3) by (simp_all add: pacing_step_def)
  from sv obtain p t where pt: "?tr ! (k - 1) = Saved p t" by (cases "?tr ! (k - 1)") auto
  have "\<not> is_pacing (last ?tr)" using shape(2) ne by simp
  then have "k \<noteq> length ?tr - 1" using assms(3) ne by (auto simp: last_conv_nth)
  then have sk: "Suc k < length ?tr" using assms(2) by linarith
  then have "starts_item (?tr ! Suc k)" using step[of k] assms(3) by (simp add: pacing_step_def)
  then have nx: "\<exists>f. ?tr ! Suc k = AlreadyExists f \<or> ?tr ! Suc k = Attempt f"
    by (cases "?tr ! Suc k") auto
  have after: "\<forall>j p t. Suc j < length ?tr \<and> ?tr ! j = Saved p t \<longrightarrow> ?tr ! Suc j = PacingSleep delay"
  proof (intro allI impI)
    fix j p t
    assume a: "Suc j < length ?tr \<and> ?tr ! j = Saved p t"
    then have "pacing_step delay (Saved p t) (?tr ! Suc j)"
      using step[of j] by metis
    then have "is_saved (Saved p t) \<longrightarrow> ?tr ! Suc j = PacingSleep delay"
      unfolding pacing_step_def by (elim conjE)
    then show "?tr ! Suc j = PacingSleep delay" by simp
  qed
  have prev: "\<exists>p t. ?tr ! (k - 1) = Saved p t" using pt by blast
  from d k0 prev sk nx after show ?thesis by (intro conjI)
qed

theorem pacing_only_after_success_witness:
  "transcription_phase (\<lambda>k f. Transcript ''hello'') 5 [''a.mp3'', ''b.mp3''] Map.empty =
     (None, \<lparr>attempts = 2,
             trace = [Attempt ''a.mp3'', Saved ''a.txt'' ''hello'', PacingSleep 5,
                      Attempt ''b.mp3'', Saved ''b.txt'' ''hello''],
             transcripts = [''a.txt'' \<mapsto> ''hello'', ''b.txt'' \<mapsto> ''hello''],
             transcribed_count = 2, skipped_count = 0\<rparr>) \<and>
   (2::nat) < length [Attempt ''a.mp3'', Saved ''a.txt'' ''hello'', PacingSleep 5,
                      Attempt ''b.mp3'', Saved ''b.txt'' ''hello''] \<and>
   [Attempt ''a.mp3'', Saved ''a.txt'' ''hello'', PacingSleep 5,
    Attempt ''b.mp3'', Saved ''b.txt'' ''hello''] ! 2 = PacingSleep 5 \<and>
   [Attempt ''a.mp3'', Saved ''a.txt'' ''hello'', PacingSleep 5,
    Attempt ''b.mp3'', Saved ''b.txt'' ''hello''] ! (2 - 1) = Saved ''a.txt'' ''hello'' \<and>
   [Attempt ''a.mp3'', Saved ''a.txt'' ''hello'', PacingSleep 5,
    Attempt ''b.mp3'', Saved ''b.txt'' ''hello''] ! Suc 2 = Attempt ''b.mp3''"
  using pacing_only_after_success[OF two_successes, of 2 5] two_successes
  by simp

text \<open>
  Claim C4 as stated fails: with two audio files, the first transcribed and the second
  already transcribed in an earlier run, the delay is slept after the first although no
  successful transcription follows it.
\<close>

theorem sleep_not_between_successes:
  "trace (snd (transcription_phase says_hello 7 [''a.mp3'', ''b.mp3''] b_is_transcribed)) =
     [Attempt ''a.mp3'', Saved ''a.txt'' ''hello'', PacingSleep 7, AlreadyExists ''b.txt''] \<and>
   \<not> sleeps_between_successes
        (trace (snd (transcription_phase says_hello 7 [''a.mp3'', ''b.mp3''] b_is_transcribed)))"
  by (simp add: sleep_before_skip)

text \<open>
  Claim C5 (counts reconcile): in every run that reaches the summary, the three printed
  counts add up to the printed total, which is the number of audio files, and the printed
  transcribed and skipped counts are the counters of the loop, which count the transcripts
  saved and the items skipped in the trace.
\<close>

theorem counts_reconcile:
  assumes "run_transcription cl delay all_mp3_files ts = Inr s"
  shows "successfully_transcribed s + skipped_already_existed s + failed s = total_audio_files s \<and>
         total_audio_files s = int (length all_mp3_files) \<and>
         (\<exists>st. transcription_phase cl delay all_mp3_files ts = (None, st) \<and>
               successfully_transcribed s = transcribed_count st \<and>
               skipped_already_existed s = skipped_count st \<and>
               transcribed_count st = int (length (filter is_saved (trace st))) \<and>
               skipped_count st = int (length (filter is_skip (trace st))))"
proof -
  from assms obtain st where st: "transcription_phase cl delay all_mp3_files ts = (None, st)"
    and s: "s = completion_summary all_mp3_files st"
    by (rule run_transcription_Inr)
  have "successfully_transcribed s + skipped_already_existed s + failed s = total_audio_files s"
    and "total_audio_files s = int (length all_mp3_files)"
    and "successfully_transcribed s = transcribed_count st"
    and "skipped_already_existed s = skipped_count st"
    using s by (simp_all add: completion_summary_def)
  then show ?thesis using st phase_counts(1,2)[OF st] by blast
qed

theorem counts_reconcile_witness:
  "run_transcription (\<lambda>k f. if f = ''c.mp3'' then Transcript ''hello'' else OtherError ''reset'')
      5 [''a.mp3'', ''b.mp3'', ''c.mp3''] [''a.txt'' \<mapsto> ''old''] =
     Inr \<lparr>total_audio_files = 3, successfully_transcribed = 1,
          skipped_already_existed = 2, failed = 0\<rparr> \<and>
   (1::int) + 2 + 0 = 3 \<and>
   (3::int) = int (length [''a.mp3'', ''b.mp3'', ''c.mp3''])"
  using counts_reconcile[OF mixed_run_summary] mixed_run_summary by simp

text \<open>
  Claim C9 (the printed failed count is zero): in every run that reaches the summary the
  printed failed count is 0 and transcribed plus skipped is the total, because every
  iteration adds one to exactly one of the two counters, and an iteration whose
  transcription returns \<^verbatim>\<open>None\<close> or the empty string adds it to the skipped counter.
\<close>

theorem failed_count_is_zero:
  "(run_transcription cl delay all_mp3_files ts = Inr s \<longrightarrow>
      failed s = 0 \<and>
      successfully_transcribed s + skipped_already_existed s = total_audio_files s) \<and>
   (process_file cl delay n i mp3_file st = (exc, st') \<longrightarrow>
      (transcribed_count st' = transcribed_count st + 1 \<and> skipped_count st' = skipped_count st) \<or>
      (transcribed_count st' = transcribed_count st \<and> skipped_count st' = skipped_count st + 1)) \<and>
   (process_file cl delay n i mp3_file st = (exc, st') \<and>
    transcripts st (transcript_file_of mp3_file) = None \<and>
    \<not> truthy_text (fst (transcribe_audio_default mp3_file cl st)) \<longrightarrow>
      exc = None \<and> transcribed_count st' = transcribed_count st \<and>
      skipped_count st' = skipped_count st + 1)"
proof (intro conjI impI)
  assume a: "run_transcription cl delay all_mp3_files ts = Inr s"
  then obtain st0 where st0: "transcription_phase cl delay all_mp3_files ts = (None, st0)"
    and s: "s = completion_summary all_mp3_files st0"
    by (rule run_transcription_Inr)
  have "transcribed_count st0 + skipped_count st0 = int (length all_mp3_files)"
    using phase_counts(3)[OF st0] by simp
  then show "failed s = 0"
    and "successfully_transcribed s + skipped_already_existed s = total_audio_files s"
    using s by (simp_all add: completion_summary_def)
next
  assume "process_file cl delay n i mp3_file st = (exc, st')"
  then show "(transcribed_count st' = transcribed_count st + 1 \<and> skipped_count st' = skipped_count st) \<or>
      (transcribed_count st' = transcribed_count st \<and> skipped_count st' = skipped_count st + 1)"
    by (cases rule: process_file_cases) simp_all
next
  assume a: "process_file cl delay n i mp3_file st = (exc, st') \<and>
    transcripts st (transcript_file_of mp3_file) = None \<and>
    \<not> truthy_text (fst (transcribe_audio_default mp3_file cl st))"
  then have "process_file cl delay n i mp3_file st = (exc, st')" by simp
  then have "exc = None \<and> transcribed_count st' = transcribed_count st \<and>
      skipped_count st' = skipped_count st + 1"
    using a by (cases rule: process_file_cases) simp_all
  then show "exc = None" and "transcribed_count st' = transcribed_count st"
    and "skipped_count st' = skipped_count st + 1" by simp_all
qed

theorem failed_count_is_zero_witness:
  "run_transcription (\<lambda>k f. if f = ''c.mp3'' then Transcript ''hello'' else OtherError ''reset'')
      5 [''a.mp3'', ''b.mp3'', ''c.mp3''] [''a.txt'' \<mapsto> ''old''] =
     Inr \<lparr>total_audio_files = 3, successfully_transcribed = 1,
          skipped_already_existed = 2, failed = 0\<rparr> \<and>
   failed \<lparr>total_audio_files = 3, successfully_transcribed = 1,
           skipped_already_existed = 2, failed = 0\<rparr> = 0 \<and>
   transcripts (initial_state Map.empty) (transcript_file_of ''b.mp3'') = None \<and>
   \<not> truthy_text (fst (transcribe_audio_default ''b.mp3'' (\<lambda>k f. OtherError ''reset'')
                        (initial_state Map.empty))) \<and>
   fst (process_file (\<lambda>k f. OtherError ''reset'') 5 1 1 ''b.mp3'' (initial_state Map.empty)) = None \<and>
   skipped_count (snd (process_file (\<lambda>k f. OtherError ''reset'') 5 1 1 ''b.mp3''
                         (initial_state Map.empty)))
     = skipped_count (initial_state Map.empty) + 1 \<and>
   transcribed_count (snd (process_file (\<lambda>k f. OtherError ''reset'') 5 1 1 ''b.mp3''
                             (initial_state Map.empty)))
     = transcribed_count (initial_state Map.empty)"
  using failed_count_is_zero[where cl = "\<lambda>k f. if f = ''c.mp3'' then Transcript ''hello'' else OtherError ''reset''"
      and delay = 5 and all_mp3_files = "[''a.mp3'', ''b.mp3'', ''c.mp3'']"
      and ts = "[''a.txt'' \<mapsto> ''old'']"
      and s = "\<lparr>total_audio_files = 3, successfully_transcribed = 1,
                 skipped_already_existed = 2, failed = 0\<rparr>"]
    failed_count_is_zero[where cl = "\<lambda>k f. OtherError ''reset''" and delay = 5 and n = 1 and i = 1
      and mp3_file = "''b.mp3''" and st = "initial_state Map.empty" and exc = None
      and st' = "\<lparr>attempts = 3,
             trace = [Attempt ''b.mp3'', RetrySleep 5, Attempt ''b.mp3'', RetrySleep 5,
                      Attempt ''b.mp3'', SkippedTranscription ''b.mp3''],
             transcripts = Map.empty, transcribed_count = 0, skipped_count = 1\<rparr>"]
    mixed_run_summary failing_item failing_item_text
  by (simp add: initial_state_def)

text \<open>
  Claim C6 (idempotent resume): an iteration that finds the transcript of its audio file
  returns the state it was given with one more in the skipped counter and the message in
  the trace, so with no attempt made and every transcript as it was; and over a whole run,
  a transcript that exists at the start has the same content at the end and no attempt
  is made for its audio file. Nothing in either reads the content.
\<close>

theorem existing_transcript_is_skipped:
  "(transcripts st (transcript_file_of mp3_file) = Some content \<longrightarrow>
      process_file cl delay n i mp3_file st =
        (None, st\<lparr>trace := trace st @ [AlreadyExists (transcript_file_of mp3_file)],
                   skipped_count := skipped_count st + 1\<rparr>)) \<and>
   (ts (transcript_file_of mp3_file) = Some content \<and>
    transcription_phase cl delay all_mp3_files ts = (exc, st') \<longrightarrow>
      transcripts st' (transcript_file_of mp3_file) = Some content \<and>
      Attempt mp3_file \<notin> set (trace st'))"
proof (intro conjI impI)
  assume "transcripts st (transcript_file_of mp3_file) = Some content"
  then show "process_file cl delay n i mp3_file st =
        (None, st\<lparr>trace := trace st @ [AlreadyExists (transcript_file_of mp3_file)],
                   skipped_count := skipped_count st + 1\<rparr>)"
    by (simp add: process_file_def emit_def)
next
  assume a: "ts (transcript_file_of mp3_file) = Some content \<and>
    transcription_phase cl delay all_mp3_files ts = (exc, st')"
  then have l: "transcription_loop cl delay (int (length all_mp3_files)) 1 all_mp3_files
      (initial_state ts) = (exc, st')"
    by (simp add: transcription_phase_def)
  from transcription_loop_frame[OF l] obtain new where
    new: "trace st' = trace (initial_state ts) @ new"
      "\<forall>p c. transcripts (initial_state ts) p = Some c \<longrightarrow> transcripts st' p = Some c"
      "\<forall>g. Attempt g \<in> set new \<longrightarrow> transcripts (initial_state ts) (transcript_file_of g) = None"
    by blast
  have ts0: "transcripts (initial_state ts) = ts" by (simp add: initial_state_def)
  have eq: "trace st' = new" using new(1) by (simp add: initial_state_def)
  show "transcripts st' (transcript_file_of mp3_file) = Some content"
    using new(2) a ts0 by simp
  show "Attempt mp3_file \<notin> set (trace st')"
  proof
    assume "Attempt mp3_file \<in> set (trace st')"
    then have "ts (transcript_file_of mp3_file) = None" using new(3) eq ts0 by simp
    then show False using a by simp
  qed
qed

theorem existing_transcript_is_skipped_witness:
  "transcripts (initial_state [''a.txt'' \<mapsto> ''old'']) (transcript_file_of ''a.mp3'') = Some ''old'' \<and>
   process_file (\<lambda>k f. Transcript ''new'') 5 3 1 ''a.mp3'' (initial_state [''a.txt'' \<mapsto> ''old'']) =
     (None, \<lparr>attempts = 0, trace = [AlreadyExists ''a.txt''],
             transcripts = [''a.txt'' \<mapsto> ''old''], transcribed_count = 0, skipped_count = 1\<rparr>) \<and>
   [''a.txt'' \<mapsto> ''old''] (transcript_file_of ''a.mp3'') = Some ''old'' \<and>
   transcripts (snd (transcription_phase
        (\<lambda>k f. if f = ''c.mp3'' then Transcript ''hello'' else OtherError ''reset'')
        5 [''a.mp3'', ''b.mp3'', ''c.mp3''] [''a.txt'' \<mapsto> ''old''])) ''a.txt'' = Some ''old'' \<and>
   Attempt ''a.mp3'' \<notin> set (trace (snd (transcription_phase
        (\<lambda>k f. if f = ''c.mp3'' then Transcript ''hello'' else OtherError ''reset'')
        5 [''a.mp3'', ''b.mp3'', ''c.mp3''] [''a.txt'' \<mapsto> ''old''])))"
proof -
  have tf: "transcript_file_of ''a.mp3'' = ''a.txt''"
    by (simp add: transcript_file_of_def stem_def)
  show ?thesis
    using existing_transcript_is_skipped[where st = "initial_state [''a.txt'' \<mapsto> ''old'']"
        and mp3_file = "''a.mp3''" and content = "''old''" and cl = "\<lambda>k f. Transcript ''new''"
        and delay = 5 and n = 3 and i = 1]
      existing_transcript_is_skipped[where ts = "[''a.txt'' \<mapsto> ''old'']"
        and mp3_file = "''a.mp3''" and content = "''old''"
        and cl = "\<lambda>k f. if f = ''c.mp3'' then Transcript ''hello'' else OtherError ''reset''"
        and delay = 5 and all_mp3_files = "[''a.mp3'', ''b.mp3'', ''c.mp3'']" and exc = None
        and st' = "\<lparr>attempts = 4,
             trace = [AlreadyExists ''a.txt'',
                      Attempt ''b.mp3'', RetrySleep 5, Attempt ''b.mp3'', RetrySleep 5,
                      Attempt ''b.mp3'', SkippedTranscription ''b.mp3'',
                      Attempt ''c.mp3'', Saved ''c.txt'' ''hello''],
             transcripts = [''a.txt'' \<mapsto> ''old'', ''c.txt'' \<mapsto> ''hello''],
             transcribed_count = 1, skipped_count = 2\<rparr>"]
      mixed_run tf
    by (simp add: initial_state_def)
qed

end
